theory Spec2Isabelle
  imports Main "HOL-Library.Sublist"
begin

section \<open>Mute propagation over notmuch threads\<close>

text \<open>
  A shallow embedding of \<^verbatim>\<open>notmuch_propagate_mute.py\<close>. The script reads a thread tree
  from the notmuch database and adds tags to its messages. The database is modelled by
  the part of it the script touches: the tag set of every message, keyed by message id.
  The tree of messages (headers and replies) is only read. Calls into the notmuch
  library are taken to succeed. The interpreter's call stack is taken to be deep enough
  for the thread at hand, except in \<open>apply_mute_run\<close>, which models its limit.
\<close>

subsection \<open>Constants\<close>

definition MUTE_CMD_TAG :: string where
  "MUTE_CMD_TAG = ''mute-thread''"

definition MUTED_TAG :: string where
  "MUTED_TAG = ''thread-muted''"

definition PROCESSED_TAG :: string where
  "PROCESSED_TAG = ''mute-processed''"

subsection \<open>Messages and the tag database\<close>

text \<open>
  A message as the script sees it: its id, the raw text of its \<^verbatim>\<open>To\<close> and \<^verbatim>\<open>Cc\<close> headers
  (what \<^verbatim>\<open>msg.get_header\<close> returns) and its direct replies (\<^verbatim>\<open>msg.get_replies()\<close>).
\<close>

datatype msg = Msg (msg_id: string) (hdr_to: string) (hdr_cc: string) (get_replies: "msg list")

type_synonym tag_db = "string \<Rightarrow> string set"

definition get_tags :: "tag_db \<Rightarrow> msg \<Rightarrow> string set" where
  "get_tags db m = db (msg_id m)"

definition add_tag :: "msg \<Rightarrow> string \<Rightarrow> tag_db \<Rightarrow> tag_db" where
  "add_tag m t db = db(msg_id m := insert t (db (msg_id m)))"

subsection \<open>Addressing level\<close>

text \<open>\<^verbatim>\<open>class Addressed(enum.IntEnum)\<close>: members compare by their integer values.\<close>

datatype Addressed = NONE | CC | TO

fun enum_value :: "Addressed \<Rightarrow> nat" where
  "enum_value NONE = 0"
| "enum_value CC = 1"
| "enum_value TO = 2"

instantiation Addressed :: linorder
begin

definition less_eq_Addressed :: "Addressed \<Rightarrow> Addressed \<Rightarrow> bool" where
  "less_eq_Addressed a b = (enum_value a \<le> enum_value b)"

definition less_Addressed :: "Addressed \<Rightarrow> Addressed \<Rightarrow> bool" where
  "less_Addressed a b = (enum_value a < enum_value b)"

instance
proof
  fix x y z :: Addressed
  show "(x < y) = (x \<le> y \<and> \<not> y \<le> x)"
    by (auto simp: less_eq_Addressed_def less_Addressed_def)
  show "x \<le> x"
    by (simp add: less_eq_Addressed_def)
  show "x \<le> y \<Longrightarrow> y \<le> z \<Longrightarrow> x \<le> z"
    by (simp add: less_eq_Addressed_def)
  show "x \<le> y \<Longrightarrow> y \<le> x \<Longrightarrow> x = y"
    by (cases x; cases y) (simp_all add: less_eq_Addressed_def)
  show "x \<le> y \<or> y \<le> x"
    by (auto simp: less_eq_Addressed_def)
qed

end

text \<open>
  Python's \<^verbatim>\<open>needle in haystack\<close> on strings: the needle occurs at some position of the
  haystack, character for character.
\<close>

fun str_in :: "string \<Rightarrow> string \<Rightarrow> bool" where
  "str_in needle [] = (needle = [])"
| "str_in needle (c # cs) = (prefix needle (c # cs) \<or> str_in needle cs)"

text \<open>\<^verbatim>\<open>Addressed.from_msg\<close>, with the global \<^verbatim>\<open>EMAIL\<close> as a parameter.\<close>

definition from_msg :: "string \<Rightarrow> msg \<Rightarrow> Addressed" where
  "from_msg EMAIL m =
     (if str_in EMAIL (hdr_to m) then TO
      else if str_in EMAIL (hdr_cc m) then CC
      else NONE)"

subsection \<open>Propagation\<close>

text \<open>The value of the local variable \<^verbatim>\<open>mute\<close> of \<^verbatim>\<open>apply_mute\<close> (lines 89 to 101).\<close>

definition mute_decision :: "string set \<Rightarrow> Addressed \<Rightarrow> bool \<Rightarrow> Addressed option \<Rightarrow> bool" where
  "mute_decision tags addressed parent_muted parent_addressed =
     (if MUTE_CMD_TAG \<in> tags then True
      else if parent_muted then
        (case parent_addressed of
           None \<Rightarrow> False
         | Some pa \<Rightarrow> addressed \<le> pa)
      else False)"

text \<open>
  \<^verbatim>\<open>apply_mute\<close>. The database is passed in and returned; the replies are processed in
  order, each on the database its elder siblings left.
\<close>

fun apply_mute :: "string \<Rightarrow> msg \<Rightarrow> bool \<Rightarrow> Addressed option \<Rightarrow> tag_db \<Rightarrow> tag_db" where
  "apply_mute EMAIL (Msg i to cc rs) parent_muted parent_addressed db =
     (let m = Msg i to cc rs;
          addressed = from_msg EMAIL m;
          mute = mute_decision (get_tags db m) addressed parent_muted parent_addressed;
          db1 = (if mute then add_tag m MUTED_TAG db else db);
          db2 = add_tag m PROCESSED_TAG db1
      in fold (\<lambda>reply. apply_mute EMAIL reply mute (Some addressed)) rs db2)"

subsection \<open>The calls of a run\<close>

text \<open>
  One invocation of \<^verbatim>\<open>apply_mute\<close>: the message, the two context arguments, and the
  value the invocation computes for \<^verbatim>\<open>mute\<close>.
\<close>

datatype call = Call (call_msg: msg) (call_parent_muted: bool)
  (call_parent_addressed: "Addressed option") (call_mute: bool)

text \<open>
  The invocations a run makes, in the order it makes them: the call on the message
  itself, then, reply by reply, the calls of the recursive run on that reply, which gets
  this call's \<^verbatim>\<open>mute\<close> and \<^verbatim>\<open>addressed\<close> as its context. The command tag is looked up in
  the database the run started from (\<open>apply_mute_calls\<close> below shows that the run itself
  is these calls performed one after the other).
\<close>

fun calls :: "string \<Rightarrow> tag_db \<Rightarrow> msg \<Rightarrow> bool \<Rightarrow> Addressed option \<Rightarrow> call list" where
  "calls EMAIL db (Msg i to cc rs) parent_muted parent_addressed =
     (let m = Msg i to cc rs;
          addressed = from_msg EMAIL m;
          mute = mute_decision (get_tags db m) addressed parent_muted parent_addressed
      in Call m parent_muted parent_addressed mute
           # concat (map (\<lambda>reply. calls EMAIL db reply mute (Some addressed)) rs))"

text \<open>The writes of one invocation (lines 103 to 105).\<close>

definition perform :: "call \<Rightarrow> tag_db \<Rightarrow> tag_db" where
  "perform c db =
     add_tag (call_msg c) PROCESSED_TAG
       (if call_mute c then add_tag (call_msg c) MUTED_TAG db else db)"

text \<open>The messages of a thread, parents before their replies.\<close>

fun thread_msgs :: "msg \<Rightarrow> msg list" where
  "thread_msgs (Msg i to cc rs) = Msg i to cc rs # concat (map thread_msgs rs)"

text \<open>
  The main loop (lines 135 and 136) calls \<^verbatim>\<open>apply_mute\<close> on the first message of each
  selected thread with \<^verbatim>\<open>parent_muted=False\<close> and \<^verbatim>\<open>parent_addressed=None\<close>. A sequence
  of such runs, over one or several executions of the script, is a list of pairs of the
  \<^verbatim>\<open>--email\<close> argument and the root message.
\<close>

definition propagate_runs :: "(string \<times> msg) list \<Rightarrow> tag_db \<Rightarrow> tag_db" where
  "propagate_runs runs db = fold (\<lambda>(EMAIL, root). apply_mute EMAIL root False None) runs db"

text \<open>
  The text of an address-list header that names the given addresses in the given order,
  separated by a comma and a space.
\<close>

fun address_list :: "string list \<Rightarrow> string" where
  "address_list [] = []"
| "address_list [a] = a"
| "address_list (a # b # as) = a @ '', '' @ address_list (b # as)"

subsection \<open>The call stack and the journal of writes\<close>

text \<open>
  \<open>apply_mute\<close> above is the run on a call stack that is deep enough. The interpreter
  bounds the stack (\<^verbatim>\<open>sys.getrecursionlimit()\<close>, 1000 frames unless changed) and raises
  \<^verbatim>\<open>RecursionError\<close> beyond it; the script does not catch it.
\<close>

datatype error = RecursionError

text \<open>
  The database together with the journal of the \<^verbatim>\<open>add_tag\<close> calls made on it, oldest
  first: the message id and the tag of each call.
\<close>

type_synonym journalled_db = "tag_db \<times> (string \<times> string) list"

definition add_tag_journalled :: "msg \<Rightarrow> string \<Rightarrow> journalled_db \<Rightarrow> journalled_db" where
  "add_tag_journalled m t s = (add_tag m t (fst s), snd s @ [(msg_id m, t)])"

text \<open>
  \<^verbatim>\<open>apply_mute\<close> once more, now with the stack limit and the journal. The first argument is
  the number of nested invocations of \<^verbatim>\<open>apply_mute\<close> the stack still has room for; an
  invocation that does not fit raises before it writes anything, and the exception ends
  the loop over the replies and every enclosing invocation.
\<close>

fun apply_mute_run ::
  "nat \<Rightarrow> string \<Rightarrow> msg \<Rightarrow> bool \<Rightarrow> Addressed option \<Rightarrow> journalled_db \<Rightarrow> error + journalled_db" where
  "apply_mute_run 0 EMAIL m parent_muted parent_addressed s = Inl RecursionError"
| "apply_mute_run (Suc room) EMAIL (Msg i to cc rs) parent_muted parent_addressed s =
     (let m = Msg i to cc rs;
          addressed = from_msg EMAIL m;
          mute = mute_decision (get_tags (fst s) m) addressed parent_muted parent_addressed;
          s1 = (if mute then add_tag_journalled m MUTED_TAG s else s);
          s2 = add_tag_journalled m PROCESSED_TAG s1
      in fold (\<lambda>reply acc.
                 case acc of
                   Inl e \<Rightarrow> Inl e
                 | Inr s' \<Rightarrow> apply_mute_run room EMAIL reply mute (Some addressed) s')
           rs (Inr s2))"

text \<open>
  The messages a journal shows as visited: every invocation adds the processed marker
  once (line 105), so these are the ids of the journal's processed-marker writes.
\<close>

definition visited :: "(string \<times> string) list \<Rightarrow> string list" where
  "visited journal = map fst (filter (\<lambda>w. snd w = PROCESSED_TAG) journal)"

text \<open>The nesting depth of a thread: the number of messages on its longest reply chain.\<close>

fun depth_of :: "msg \<Rightarrow> nat" where
  "depth_of (Msg i to cc rs) = Suc (fold max (map depth_of rs) 0)"

text \<open>
  A thread that is one chain of replies, \<open>Suc n\<close> messages long, none naming anyone; the
  message ids differ in their length.
\<close>

fun reply_chain :: "nat \<Rightarrow> msg" where
  "reply_chain 0 = Msg ''m'' [] [] []"
| "reply_chain (Suc n) = Msg (replicate (Suc n) (CHR ''r'') @ ''m'') [] [] [reply_chain n]"

text \<open>The writes of a list of calls, as they appear in the journal.\<close>

definition writes_of :: "call \<Rightarrow> (string \<times> string) list" where
  "writes_of c =
     (if call_mute c then [(msg_id (call_msg c), MUTED_TAG)] else [])
       @ [(msg_id (call_msg c), PROCESSED_TAG)]"

text \<open>The database in which no message carries a tag.\<close>

definition no_tags :: tag_db where
  "no_tags i = {}"

section \<open>Auxiliary facts\<close>

lemma tags_distinct:
  "MUTE_CMD_TAG \<noteq> MUTED_TAG" "MUTE_CMD_TAG \<noteq> PROCESSED_TAG" "MUTED_TAG \<noteq> PROCESSED_TAG"
  by (simp_all add: MUTE_CMD_TAG_def MUTED_TAG_def PROCESSED_TAG_def)

lemma str_in_sublist: "str_in needle hay = sublist needle hay"
  by (induction hay) (simp_all add: sublist_Cons_right)

lemma str_in_Nil [simp]: "str_in [] hay"
  by (simp add: str_in_sublist)

lemma perform_apply:
  "perform c db i =
     (if i = msg_id (call_msg c)
      then db i \<union> {PROCESSED_TAG} \<union> (if call_mute c then {MUTED_TAG} else {})
      else db i)"
  by (auto simp: perform_def add_tag_def)

lemma fold_perform_apply:
  "fold perform cs db i =
     db i \<union> (if i \<in> msg_id ` call_msg ` set cs then {PROCESSED_TAG} else {})
          \<union> (if \<exists>c \<in> set cs. msg_id (call_msg c) = i \<and> call_mute c then {MUTED_TAG} else {})"
proof (induction cs arbitrary: db)
  case Nil
  then show ?case by simp
next
  case (Cons c cs)
  show ?case
  proof -
    have step: "perform c db i =
     (if i = msg_id (call_msg c)
      then db i \<union> {PROCESSED_TAG} \<union> (if call_mute c then {MUTED_TAG} else {})
      else db i)"
      by (rule perform_apply)
    have "fold perform (c # cs) db i = fold perform cs (perform c db) i"
      by simp
    also have "\<dots> = perform c db i
          \<union> (if i \<in> msg_id ` call_msg ` set cs then {PROCESSED_TAG} else {})
          \<union> (if \<exists>c \<in> set cs. msg_id (call_msg c) = i \<and> call_mute c then {MUTED_TAG} else {})"
      by (rule Cons.IH)
    finally have eq1: "fold perform (c # cs) db i = perform c db i
          \<union> (if i \<in> msg_id ` call_msg ` set cs then {PROCESSED_TAG} else {})
          \<union> (if \<exists>c \<in> set cs. msg_id (call_msg c) = i \<and> call_mute c then {MUTED_TAG} else {})" .
    show ?thesis
      by (simp only: eq1 step) auto
  qed
qed

lemma fold_perform_cmd:
  "(MUTE_CMD_TAG \<in> fold perform cs db i) = (MUTE_CMD_TAG \<in> db i)"
  using tags_distinct by (auto simp: fold_perform_apply)

lemma calls_cong_cmd:
  "(\<And>i. (MUTE_CMD_TAG \<in> db' i) = (MUTE_CMD_TAG \<in> db i)) \<Longrightarrow>
   calls EMAIL db' m pm pa = calls EMAIL db m pm pa"
proof (induction m arbitrary: pm pa)
  case (Msg i to cc rs)
  have "mute_decision (db' i) a pm pa = mute_decision (db i) a pm pa" for a
    using Msg.prems by (simp add: mute_decision_def)
  moreover have "calls EMAIL db' r x y = calls EMAIL db r x y" if "r \<in> set rs" for r x y
    using Msg.IH [OF that Msg.prems] .
  ultimately show ?case
    by (simp add: Let_def get_tags_def cong: map_cong)
qed

lemma fold_replies_calls:
  assumes IH: "\<And>r db. r \<in> set rs \<Longrightarrow>
                 apply_mute EMAIL r mute a db = fold perform (calls EMAIL db r mute a) db"
    and same: "\<And>i. (MUTE_CMD_TAG \<in> db2 i) = (MUTE_CMD_TAG \<in> db i)"
  shows "fold (\<lambda>reply. apply_mute EMAIL reply mute a) rs db2 =
         fold perform (concat (map (\<lambda>reply. calls EMAIL db reply mute a) rs)) db2"
  using assms
proof (induction rs arbitrary: db2)
  case Nil
  then show ?case by simp
next
  case (Cons r rs)
  let ?db3 = "fold perform (calls EMAIL db r mute a) db2"
  have c: "calls EMAIL db2 r mute a = calls EMAIL db r mute a"
    by (rule calls_cong_cmd) (rule Cons.prems(2))
  have step: "apply_mute EMAIL r mute a db2 = ?db3"
    using Cons.prems(1) [of r db2] c by simp
  have same3: "(MUTE_CMD_TAG \<in> ?db3 i) = (MUTE_CMD_TAG \<in> db i)" for i
    by (simp add: fold_perform_cmd Cons.prems(2))
  have "fold (\<lambda>reply. apply_mute EMAIL reply mute a) rs ?db3 =
        fold perform (concat (map (\<lambda>reply. calls EMAIL db reply mute a) rs)) ?db3"
    by (rule Cons.IH) (use Cons.prems(1) same3 in auto)
  then show ?case
    using step by simp
qed

lemma apply_mute_calls:
  "apply_mute EMAIL m pm pa db = fold perform (calls EMAIL db m pm pa) db"
proof (induction m arbitrary: pm pa db)
  case (Msg i to cc rs)
  let ?m = "Msg i to cc rs"
  let ?a = "from_msg EMAIL ?m"
  let ?mute = "mute_decision (get_tags db ?m) ?a pm pa"
  let ?c = "Call ?m pm pa ?mute"
  have same: "(MUTE_CMD_TAG \<in> perform ?c db j) = (MUTE_CMD_TAG \<in> db j)" for j
    using fold_perform_cmd [of "[?c]" db j] by simp
  have "fold (\<lambda>reply. apply_mute EMAIL reply ?mute (Some ?a)) rs (perform ?c db) =
        fold perform (concat (map (\<lambda>reply. calls EMAIL db reply ?mute (Some ?a)) rs)) (perform ?c db)"
    by (rule fold_replies_calls) (use Msg.IH same in auto)
  moreover have "apply_mute EMAIL ?m pm pa db =
      fold (\<lambda>reply. apply_mute EMAIL reply ?mute (Some ?a)) rs (perform ?c db)"
    by (simp add: Let_def perform_def)
  moreover have "calls EMAIL db ?m pm pa =
      ?c # concat (map (\<lambda>reply. calls EMAIL db reply ?mute (Some ?a)) rs)"
    by (simp add: Let_def)
  ultimately show ?case
    by simp
qed

lemma calls_msgs: "map call_msg (calls EMAIL db m pm pa) = thread_msgs m"
proof (induction m arbitrary: pm pa)
  case (Msg i to cc rs)
  then show ?case
    by (simp add: Let_def map_concat comp_def cong: map_cong)
qed

lemma from_msg_sublist:
  "from_msg EMAIL m =
     (if sublist EMAIL (hdr_to m) then TO
      else if sublist EMAIL (hdr_cc m) then CC
      else NONE)"
  by (simp add: from_msg_def str_in_sublist)

lemma prefix_without_head:
  "s \<notin> set e \<Longrightarrow> prefix e (s # ys) = (e = [])"
  by (auto simp: prefix_Cons)

lemma sublist_across_sep:
  assumes "s \<notin> set e"
  shows "sublist e (xs @ s # ys) = (sublist e xs \<or> sublist e ys)"
proof -
  have "e = e1 @ e2 \<Longrightarrow> suffix e1 xs \<Longrightarrow> prefix e2 (s # ys) \<Longrightarrow> sublist e xs" for e1 e2
    using assms by (auto simp: prefix_Cons)
  moreover have "prefix e (s # ys) \<Longrightarrow> sublist e xs"
    using assms by (simp add: prefix_without_head)
  ultimately show ?thesis
    by (auto simp: sublist_append [of e xs "s # ys"] sublist_Cons_right)
qed

lemma sublist_address_list:
  assumes "CHR '','' \<notin> set e" "CHR '' '' \<notin> set e"
  shows "sublist e (address_list as) = (e = [] \<or> (\<exists>a \<in> set as. sublist e a))"
proof (induction as rule: address_list.induct)
  case 1
  then show ?case by simp
next
  case (2 a)
  then show ?case by auto
next
  case (3 a b as)
  have "sublist e (CHR '' '' # address_list (b # as)) = (sublist e [] \<or> sublist e (address_list (b # as)))"
    using sublist_across_sep [OF assms(2), of "[]"] by simp
  then show ?case
    using 3 sublist_across_sep [OF assms(1), of a "CHR '' '' # address_list (b # as)"]
    by auto
qed

lemma calls_mute:
  "c \<in> set (calls EMAIL db m pm pa) \<Longrightarrow>
   call_mute c = mute_decision (get_tags db (call_msg c)) (from_msg EMAIL (call_msg c))
                   (call_parent_muted c) (call_parent_addressed c)"
proof (induction m arbitrary: pm pa)
  case (Msg i to cc rs)
  then show ?case
    by (auto simp: Let_def)
qed

lemma apply_mute_apply:
  "apply_mute EMAIL m pm pa db i =
     db i \<union> (if i \<in> msg_id ` set (thread_msgs m) then {PROCESSED_TAG} else {})
          \<union> (if \<exists>c \<in> set (calls EMAIL db m pm pa). msg_id (call_msg c) = i \<and> call_mute c
             then {MUTED_TAG} else {})"
proof -
  have "call_msg ` set (calls EMAIL db m pm pa) = set (thread_msgs m)"
    using calls_msgs [of EMAIL db m pm pa] by (metis set_map)
  then show ?thesis
    by (simp only: apply_mute_calls fold_perform_apply)
qed

lemma apply_mute_cmd:
  "(MUTE_CMD_TAG \<in> apply_mute EMAIL m pm pa db i) = (MUTE_CMD_TAG \<in> db i)"
  by (simp add: apply_mute_calls fold_perform_cmd)

lemma apply_mute_twice:
  "apply_mute EMAIL m pm pa (apply_mute EMAIL m pm pa db) = apply_mute EMAIL m pm pa db"
proof
  fix i
  let ?db' = "apply_mute EMAIL m pm pa db"
  have c: "calls EMAIL ?db' m pm pa = calls EMAIL db m pm pa"
    by (rule calls_cong_cmd) (rule apply_mute_cmd)
  have "apply_mute EMAIL m pm pa ?db' i =
     ?db' i \<union> (if i \<in> msg_id ` set (thread_msgs m) then {PROCESSED_TAG} else {})
          \<union> (if \<exists>c \<in> set (calls EMAIL db m pm pa). msg_id (call_msg c) = i \<and> call_mute c
             then {MUTED_TAG} else {})"
    using apply_mute_apply [of EMAIL m pm pa ?db' i] c by simp
  also have "\<dots> = ?db' i"
    using apply_mute_apply [of EMAIL m pm pa db i] by auto
  finally show "apply_mute EMAIL m pm pa ?db' i = ?db' i" .
qed

lemma calls_Cons:
  "\<exists>cs. calls EMAIL db m pm pa =
          Call m pm pa (mute_decision (get_tags db m) (from_msg EMAIL m) pm pa) # cs
        \<and> map call_msg cs = concat (map thread_msgs (get_replies m))"
proof (cases m)
  case (Msg i to cc rs)
  have "map call_msg (calls EMAIL db r x y) = thread_msgs r" for r x y
    by (rule calls_msgs)
  then show ?thesis
    using Msg by (simp add: Let_def map_concat comp_def)
qed

lemma apply_mute_mono: "t \<in> db i \<Longrightarrow> t \<in> apply_mute EMAIL m pm pa db i"
  by (simp add: apply_mute_apply)

lemma Addressed_order: "NONE < CC \<and> CC < TO"
  by (simp add: less_Addressed_def)

lemma calls_head:
  "Call m pm pa (mute_decision (get_tags db m) (from_msg EMAIL m) pm pa)
     \<in> set (calls EMAIL db m pm pa)"
  using calls_Cons [of EMAIL db m pm pa] by auto

lemma calls_reply:
  assumes "c \<in> set (calls EMAIL db m pm pa)" and "r \<in> set (get_replies (call_msg c))"
  shows "Call r (call_mute c) (Some (from_msg EMAIL (call_msg c)))
           (mute_decision (get_tags db r) (from_msg EMAIL r) (call_mute c)
              (Some (from_msg EMAIL (call_msg c))))
         \<in> set (calls EMAIL db m pm pa)"
  using assms
proof (induction m arbitrary: pm pa)
  case (Msg i to cc rs)
  let ?m = "Msg i to cc rs"
  let ?a = "from_msg EMAIL ?m"
  let ?mute = "mute_decision (get_tags db ?m) ?a pm pa"
  let ?goal = "Call r (call_mute c) (Some (from_msg EMAIL (call_msg c)))
           (mute_decision (get_tags db r) (from_msg EMAIL r) (call_mute c)
              (Some (from_msg EMAIL (call_msg c))))"
  have unf: "set (calls EMAIL db ?m pm pa) =
     insert (Call ?m pm pa ?mute) (\<Union>x \<in> set rs. set (calls EMAIL db x ?mute (Some ?a)))"
    by (simp add: Let_def)
  from Msg.prems(1) consider (head) "c = Call ?m pm pa ?mute"
    | (sub) x where "x \<in> set rs" "c \<in> set (calls EMAIL db x ?mute (Some ?a))"
    unfolding unf by blast
  then show ?case
  proof cases
    case head
    then have "r \<in> set rs"
      using Msg.prems(2) by simp
    moreover have "?goal \<in> set (calls EMAIL db r ?mute (Some ?a))"
      using head calls_head [of r ?mute "Some ?a" db EMAIL] by simp
    ultimately show ?thesis
      unfolding unf by blast
  next
    case sub
    have "?goal \<in> set (calls EMAIL db x ?mute (Some ?a))"
      by (rule Msg.IH [OF sub(1) sub(2) Msg.prems(2)])
    then show ?thesis
      unfolding unf using sub(1) by blast
  qed
qed

lemma fold_max_le: "(fold max xs (a::nat) \<le> d) = (a \<le> d \<and> (\<forall>x \<in> set xs. x \<le> d))"
  by (induction xs arbitrary: a) auto

lemma depth_of_le:
  "(depth_of (Msg i to cc rs) \<le> Suc d) = (\<forall>r \<in> set rs. depth_of r \<le> d)"
  by (simp add: fold_max_le)

lemma depth_of_pos: "0 < depth_of m"
  by (cases m) simp

lemma depth_of_reply_chain: "depth_of (reply_chain n) = Suc n"
  by (induction n) simp_all

lemma fold_raise:
  "fold (\<lambda>reply acc. case acc of Inl e \<Rightarrow> Inl e | Inr s' \<Rightarrow> f reply s') rs (Inl e) = Inl e"
  by (induction rs) simp_all

lemma fold_replies_overflow:
  assumes "r \<in> set rs" and "\<And>s. f r s = Inl RecursionError"
  shows "\<exists>e. fold (\<lambda>reply acc. case acc of Inl e \<Rightarrow> Inl e | Inr s' \<Rightarrow> f reply s') rs acc0 = Inl e"
  using assms(1)
proof (induction rs arbitrary: acc0)
  case Nil
  then show ?case by simp
next
  case (Cons x xs)
  let ?step = "\<lambda>reply acc. case acc of Inl e \<Rightarrow> Inl e | Inr s' \<Rightarrow> f reply s'"
  have unf: "fold ?step (x # xs) acc0 = fold ?step xs (?step x acc0)"
    by simp
  show ?case
  proof (cases "x = r")
    case True
    have "\<exists>e. ?step x acc0 = Inl e"
      using True assms(2) by (cases acc0) simp_all
    then obtain e where "?step x acc0 = Inl e" ..
    then have "fold ?step xs (?step x acc0) = Inl e"
      by (simp only: fold_raise)
    then show ?thesis
      unfolding unf by (rule exI)
  next
    case False
    then have "r \<in> set xs"
      using Cons.prems by simp
    then have "\<exists>e. fold ?step xs (?step x acc0) = Inl e"
      by (rule Cons.IH)
    then show ?thesis
      unfolding unf .
  qed
qed

lemma apply_mute_run_overflow:
  "room < depth_of m \<Longrightarrow> apply_mute_run room EMAIL m pm pa s = Inl RecursionError"
proof (induction room arbitrary: m pm pa s)
  case 0
  then show ?case by simp
next
  case (Suc room)
  show ?case
  proof (cases m)
    case (Msg i to cc rs)
    have "\<not> (\<forall>r \<in> set rs. depth_of r \<le> room)"
      using Suc.prems depth_of_le [of i to cc rs room] Msg by simp
    then obtain r where r: "r \<in> set rs" "room < depth_of r"
      by (meson not_le)
    let ?m = "Msg i to cc rs"
    let ?a = "from_msg EMAIL ?m"
    let ?mute = "mute_decision (get_tags (fst s) ?m) ?a pm pa"
    let ?s2 = "add_tag_journalled ?m PROCESSED_TAG
                 (if ?mute then add_tag_journalled ?m MUTED_TAG s else s)"
    let ?step = "\<lambda>reply acc. case acc of Inl e \<Rightarrow> Inl e
                   | Inr s' \<Rightarrow> apply_mute_run room EMAIL reply ?mute (Some ?a) s'"
    have run: "apply_mute_run (Suc room) EMAIL ?m pm pa s = fold ?step rs (Inr ?s2)"
      by (simp only: apply_mute_run.simps Let_def)
    have "apply_mute_run room EMAIL r ?mute (Some ?a) s' = Inl RecursionError" for s'
      by (rule Suc.IH [OF r(2)])
    then have "\<exists>e. fold ?step rs (Inr ?s2) = Inl e"
      by (rule fold_replies_overflow [OF r(1)])
    then obtain e where "fold ?step rs (Inr ?s2) = Inl e" ..
    moreover have "e = RecursionError"
      by (cases e)
    ultimately show ?thesis
      unfolding Msg run by simp
  qed
qed

lemma fold_replies_run:
  assumes IH: "\<And>r s. r \<in> set rs \<Longrightarrow>
      apply_mute_run room EMAIL r mute a s =
        Inr (fold perform (calls EMAIL (fst s) r mute a) (fst s),
             snd s @ concat (map writes_of (calls EMAIL (fst s) r mute a)))"
    and same: "\<And>i. (MUTE_CMD_TAG \<in> fst s2 i) = (MUTE_CMD_TAG \<in> db i)"
  shows "fold (\<lambda>reply acc. case acc of Inl e \<Rightarrow> Inl e
                 | Inr s' \<Rightarrow> apply_mute_run room EMAIL reply mute a s') rs (Inr s2) =
         Inr (fold perform (concat (map (\<lambda>reply. calls EMAIL db reply mute a) rs)) (fst s2),
              snd s2 @ concat (map writes_of (concat (map (\<lambda>reply. calls EMAIL db reply mute a) rs))))"
  using assms
proof (induction rs arbitrary: s2)
  case Nil
  then show ?case by simp
next
  case (Cons r rs)
  let ?cs = "calls EMAIL db r mute a"
  let ?s3 = "(fold perform ?cs (fst s2), snd s2 @ concat (map writes_of ?cs))"
  have c: "calls EMAIL (fst s2) r mute a = ?cs"
    by (rule calls_cong_cmd) (rule Cons.prems(2))
  have step: "apply_mute_run room EMAIL r mute a s2 = Inr ?s3"
    using Cons.prems(1) [of r s2] c by simp
  have same3: "(MUTE_CMD_TAG \<in> fst ?s3 i) = (MUTE_CMD_TAG \<in> db i)" for i
    by (simp add: fold_perform_cmd Cons.prems(2))
  have "fold (\<lambda>reply acc. case acc of Inl e \<Rightarrow> Inl e
                 | Inr s' \<Rightarrow> apply_mute_run room EMAIL reply mute a s') rs (Inr ?s3) =
         Inr (fold perform (concat (map (\<lambda>reply. calls EMAIL db reply mute a) rs)) (fst ?s3),
              snd ?s3 @ concat (map writes_of (concat (map (\<lambda>reply. calls EMAIL db reply mute a) rs))))"
    by (rule Cons.IH) (use Cons.prems(1) same3 in auto)
  then show ?case
    using step by simp
qed

lemma apply_mute_run_calls:
  "depth_of m \<le> room \<Longrightarrow>
   apply_mute_run room EMAIL m pm pa s =
     Inr (fold perform (calls EMAIL (fst s) m pm pa) (fst s),
          snd s @ concat (map writes_of (calls EMAIL (fst s) m pm pa)))"
proof (induction m arbitrary: room pm pa s)
  case (Msg i to cc rs)
  let ?m = "Msg i to cc rs"
  let ?a = "from_msg EMAIL ?m"
  let ?mute = "mute_decision (get_tags (fst s) ?m) ?a pm pa"
  let ?c = "Call ?m pm pa ?mute"
  let ?s2 = "(perform ?c (fst s), snd s @ writes_of ?c)"
  obtain room' where room: "room = Suc room'"
    using Msg.prems by (cases room) simp_all
  have deep: "depth_of r \<le> room'" if "r \<in> set rs" for r
    using Msg.prems that depth_of_le [of i to cc rs room'] room by simp
  have same: "(MUTE_CMD_TAG \<in> fst ?s2 j) = (MUTE_CMD_TAG \<in> fst s j)" for j
    using fold_perform_cmd [of "[?c]" "fst s" j] by simp
  have rest: "fold (\<lambda>reply acc. case acc of Inl e \<Rightarrow> Inl e
                 | Inr s' \<Rightarrow> apply_mute_run room' EMAIL reply ?mute (Some ?a) s') rs (Inr ?s2) =
         Inr (fold perform (concat (map (\<lambda>reply. calls EMAIL (fst s) reply ?mute (Some ?a)) rs)) (fst ?s2),
              snd ?s2 @ concat (map writes_of (concat (map (\<lambda>reply. calls EMAIL (fst s) reply ?mute (Some ?a)) rs))))"
    by (rule fold_replies_run) (use Msg.IH deep same in auto)
  have s2: "add_tag_journalled ?m PROCESSED_TAG
              (if ?mute then add_tag_journalled ?m MUTED_TAG s else s) = ?s2"
    by (simp add: add_tag_journalled_def perform_def writes_of_def)
  have run: "apply_mute_run room EMAIL ?m pm pa s =
      fold (\<lambda>reply acc. case acc of Inl e \<Rightarrow> Inl e
                 | Inr s' \<Rightarrow> apply_mute_run room' EMAIL reply ?mute (Some ?a) s') rs (Inr ?s2)"
    unfolding room by (simp only: apply_mute_run.simps Let_def s2)
  have cs: "calls EMAIL (fst s) ?m pm pa =
      ?c # concat (map (\<lambda>reply. calls EMAIL (fst s) reply ?mute (Some ?a)) rs)"
    by (simp add: Let_def)
  show ?case
    unfolding run rest cs by simp
qed

lemma visited_writes:
  "visited (concat (map writes_of cs)) = map (msg_id \<circ> call_msg) cs"
  using tags_distinct(3) by (induction cs) (simp_all add: visited_def writes_of_def)

lemma muted_after_run:
  assumes "distinct (map msg_id (thread_msgs root))"
    and "c \<in> set (calls EMAIL db root pm pa)"
    and "MUTED_TAG \<notin> get_tags db (call_msg c)"
  shows "(MUTED_TAG \<in> get_tags (apply_mute EMAIL root pm pa db) (call_msg c)) = call_mute c"
proof -
  let ?cs = "calls EMAIL db root pm pa"
  have "distinct (map (msg_id \<circ> call_msg) ?cs)"
    using assms(1) calls_msgs [of EMAIL db root pm pa, symmetric] by (simp add: o_def)
  then have inj: "inj_on (msg_id \<circ> call_msg) (set ?cs)"
    by (simp add: distinct_map)
  have same: "c' = c" if "c' \<in> set ?cs" "msg_id (call_msg c') = msg_id (call_msg c)" for c'
    using inj_onD [OF inj _ that(1) assms(2)] that(2) by simp
  have "(\<exists>c' \<in> set ?cs. msg_id (call_msg c') = msg_id (call_msg c) \<and> call_mute c') = call_mute c"
    using same assms(2) by blast
  then show ?thesis
    using assms(3) tags_distinct(3) by (simp add: apply_mute_apply get_tags_def)
qed

section \<open>The claims\<close>

text \<open>
  C1. Take any call \<open>c\<close> of a run of \<^verbatim>\<open>apply_mute\<close>, from any message and any context. If \<open>c\<close>
  is not made on a thread root (its \<open>parent_addressed\<close> is a level \<open>p\<close>, not \<open>None\<close>) and its
  message lacks the command tag, it sets \<^verbatim>\<open>mute\<close> to true exactly when its \<open>parent_muted\<close>
  holds and the message's own level is at most \<open>p\<close>; and when the message ids of the
  thread are distinct and the message did not carry the muted tag before, the run leaves
  the muted tag on it in exactly that case. The context is the parent's: each reply of
  \<open>c\<close>'s message that lacks the command tag is called with \<open>c\<close>'s \<^verbatim>\<open>mute\<close> and the level of
  \<open>c\<close>'s message, and, with distinct ids and no muted tag on either before, the run leaves
  the reply muted exactly when it leaves \<open>c\<close>'s message muted and the reply's level is at
  most that of \<open>c\<close>'s message.
\<close>

theorem apply_mute_inherits:
  assumes "c \<in> set (calls EMAIL db root pm0 pa0)"
  shows "(\<forall>p. call_parent_addressed c = Some p \<and> MUTE_CMD_TAG \<notin> get_tags db (call_msg c) \<longrightarrow>
            call_mute c = (call_parent_muted c \<and> from_msg EMAIL (call_msg c) \<le> p)
          \<and> (distinct (map msg_id (thread_msgs root)) \<and> MUTED_TAG \<notin> get_tags db (call_msg c) \<longrightarrow>
               (MUTED_TAG \<in> get_tags (apply_mute EMAIL root pm0 pa0 db) (call_msg c))
                 = (call_parent_muted c \<and> from_msg EMAIL (call_msg c) \<le> p)))
       \<and> (\<forall>r \<in> set (get_replies (call_msg c)). MUTE_CMD_TAG \<notin> get_tags db r \<longrightarrow>
            Call r (call_mute c) (Some (from_msg EMAIL (call_msg c)))
              (call_mute c \<and> from_msg EMAIL r \<le> from_msg EMAIL (call_msg c))
            \<in> set (calls EMAIL db root pm0 pa0)
          \<and> (distinct (map msg_id (thread_msgs root)) \<and> MUTED_TAG \<notin> get_tags db (call_msg c)
                \<and> MUTED_TAG \<notin> get_tags db r \<longrightarrow>
               (MUTED_TAG \<in> get_tags (apply_mute EMAIL root pm0 pa0 db) r)
                 = (MUTED_TAG \<in> get_tags (apply_mute EMAIL root pm0 pa0 db) (call_msg c)
                    \<and> from_msg EMAIL r \<le> from_msg EMAIL (call_msg c))))"
proof -
  let ?db' = "apply_mute EMAIL root pm0 pa0 db"
  have a1: "call_mute c = (call_parent_muted c \<and> from_msg EMAIL (call_msg c) \<le> p)"
    if "call_parent_addressed c = Some p" "MUTE_CMD_TAG \<notin> get_tags db (call_msg c)" for p
    using calls_mute [OF assms] that by (simp add: mute_decision_def)
  have a2: "(MUTED_TAG \<in> get_tags ?db' (call_msg c)) = call_mute c"
    if "distinct (map msg_id (thread_msgs root))" "MUTED_TAG \<notin> get_tags db (call_msg c)"
    using that(1) assms that(2) by (rule muted_after_run)
  have b1: "Call r (call_mute c) (Some (from_msg EMAIL (call_msg c)))
              (call_mute c \<and> from_msg EMAIL r \<le> from_msg EMAIL (call_msg c))
            \<in> set (calls EMAIL db root pm0 pa0)"
    if "r \<in> set (get_replies (call_msg c))" "MUTE_CMD_TAG \<notin> get_tags db r" for r
  proof -
    have "mute_decision (get_tags db r) (from_msg EMAIL r) (call_mute c)
            (Some (from_msg EMAIL (call_msg c)))
          = (call_mute c \<and> from_msg EMAIL r \<le> from_msg EMAIL (call_msg c))"
      using that(2) by (simp add: mute_decision_def)
    then show ?thesis
      using calls_reply [OF assms that(1)] by simp
  qed
  have b2: "(MUTED_TAG \<in> get_tags ?db' r)
              = (MUTED_TAG \<in> get_tags ?db' (call_msg c)
                 \<and> from_msg EMAIL r \<le> from_msg EMAIL (call_msg c))"
    if "r \<in> set (get_replies (call_msg c))" "MUTE_CMD_TAG \<notin> get_tags db r"
      "distinct (map msg_id (thread_msgs root))" "MUTED_TAG \<notin> get_tags db (call_msg c)"
      "MUTED_TAG \<notin> get_tags db r" for r
  proof -
    let ?cr = "Call r (call_mute c) (Some (from_msg EMAIL (call_msg c)))
              (call_mute c \<and> from_msg EMAIL r \<le> from_msg EMAIL (call_msg c))"
    have mem: "?cr \<in> set (calls EMAIL db root pm0 pa0)"
      using that(1,2) by (rule b1)
    have "MUTED_TAG \<notin> get_tags db (call_msg ?cr)"
      using that(5) by simp
    then have "(MUTED_TAG \<in> get_tags ?db' (call_msg ?cr)) = call_mute ?cr"
      by (rule muted_after_run [OF that(3) mem])
    then show ?thesis
      using a2 [OF that(3,4)] by simp
  qed
  show ?thesis
    using a1 a2 b1 b2 by blast
qed

theorem apply_mute_inherits_witness:
  "Call (Msg ''R'' ''list@example.org'' ''me@example.org''
           [Msg ''A'' ''list@example.org'' ''me@example.org'' []]) False None True
     \<in> set (calls ''me@example.org'' (no_tags(''R'' := {MUTE_CMD_TAG}))
              (Msg ''R'' ''list@example.org'' ''me@example.org''
                 [Msg ''A'' ''list@example.org'' ''me@example.org'' []]) False None)
   \<and> MUTE_CMD_TAG \<notin> get_tags (no_tags(''R'' := {MUTE_CMD_TAG}))
        (Msg ''A'' ''list@example.org'' ''me@example.org'' [])
   \<and> Call (Msg ''A'' ''list@example.org'' ''me@example.org'' []) True (Some CC) True
     \<in> set (calls ''me@example.org'' (no_tags(''R'' := {MUTE_CMD_TAG}))
              (Msg ''R'' ''list@example.org'' ''me@example.org''
                 [Msg ''A'' ''list@example.org'' ''me@example.org'' []]) False None)
   \<and> MUTED_TAG \<in> get_tags
        (apply_mute ''me@example.org''
           (Msg ''R'' ''list@example.org'' ''me@example.org''
              [Msg ''A'' ''list@example.org'' ''me@example.org'' []]) False None
           (no_tags(''R'' := {MUTE_CMD_TAG})))
        (Msg ''A'' ''list@example.org'' ''me@example.org'' [])"
proof -
  let ?A = "Msg ''A'' ''list@example.org'' ''me@example.org'' []"
  let ?R = "Msg ''R'' ''list@example.org'' ''me@example.org'' [?A]"
  let ?c = "Call ?R False None True"
  let ?cA = "Call ?A True (Some CC) True"
  let ?db = "no_tags(''R'' := {MUTE_CMD_TAG})"
  have mem: "?c \<in> set (calls ''me@example.org'' ?db ?R False None)"
    by (simp add: Let_def from_msg_def mute_decision_def get_tags_def no_tags_def
        less_eq_Addressed_def)
  have cmd: "MUTE_CMD_TAG \<notin> get_tags ?db ?A"
    by (simp add: get_tags_def no_tags_def)
  have lv: "from_msg ''me@example.org'' ?R = CC" "from_msg ''me@example.org'' ?A = CC"
    by (simp_all add: from_msg_def)
  have "Call ?A (call_mute ?c) (Some (from_msg ''me@example.org'' (call_msg ?c)))
          (call_mute ?c \<and> from_msg ''me@example.org'' ?A \<le> from_msg ''me@example.org'' (call_msg ?c))
        \<in> set (calls ''me@example.org'' ?db ?R False None)"
    using apply_mute_inherits [OF mem] cmd by simp
  then have memA: "?cA \<in> set (calls ''me@example.org'' ?db ?R False None)"
    by (simp only: call.sel lv) simp
  have d: "distinct (map msg_id (thread_msgs ?R))"
    by simp
  have nm: "MUTED_TAG \<notin> get_tags ?db (call_msg ?cA)"
    by (simp add: get_tags_def no_tags_def)
  have pa: "call_parent_addressed ?cA = Some CC" and cmdA: "MUTE_CMD_TAG \<notin> get_tags ?db (call_msg ?cA)"
    using cmd by simp_all
  have "(MUTED_TAG \<in> get_tags (apply_mute ''me@example.org'' ?R False None ?db) (call_msg ?cA))
        = (call_parent_muted ?cA \<and> from_msg ''me@example.org'' (call_msg ?cA) \<le> CC)"
    using apply_mute_inherits [OF memA] pa cmdA d nm by blast
  then have "MUTED_TAG \<in> get_tags (apply_mute ''me@example.org'' ?R False None ?db) ?A"
    by (simp only: call.sel lv) simp
  then show ?thesis
    using mem cmd memA by blast
qed

text \<open>
  C2. For every message of the thread that carries the command tag, whatever the context
  the run starts from (root or not, parent muted or not, any parent level): every call
  on it sets \<^verbatim>\<open>mute\<close> to true, and after the run it carries the muted tag.
\<close>

theorem apply_mute_command_tag:
  assumes "m \<in> set (thread_msgs root)"
    and "MUTE_CMD_TAG \<in> get_tags db m"
  shows "(\<forall>c \<in> set (calls EMAIL db root pm pa). call_msg c = m \<longrightarrow> call_mute c)
       \<and> MUTED_TAG \<in> get_tags (apply_mute EMAIL root pm pa db) m"
proof -
  have all: "call_mute c" if "c \<in> set (calls EMAIL db root pm pa)" "call_msg c = m" for c
    using calls_mute [OF that(1)] that(2) assms(2) by (simp add: mute_decision_def)
  have "m \<in> call_msg ` set (calls EMAIL db root pm pa)"
    using assms(1) calls_msgs [of EMAIL db root pm pa] by (metis set_map)
  then obtain c where c: "c \<in> set (calls EMAIL db root pm pa)" "call_msg c = m"
    by auto
  then have "\<exists>c \<in> set (calls EMAIL db root pm pa). msg_id (call_msg c) = msg_id m \<and> call_mute c"
    using all by blast
  then have "MUTED_TAG \<in> apply_mute EMAIL root pm pa db (msg_id m)"
    by (simp add: apply_mute_apply)
  then show ?thesis
    using all by (simp add: get_tags_def)
qed

theorem apply_mute_command_tag_witness:
  "Msg ''A'' ''me@example.org'' [] [] \<in> set (thread_msgs
       (Msg ''R'' ''list@example.org'' [] [Msg ''A'' ''me@example.org'' [] []]))
   \<and> MUTE_CMD_TAG \<in> get_tags (no_tags(''A'' := {MUTE_CMD_TAG})) (Msg ''A'' ''me@example.org'' [] [])
   \<and> MUTED_TAG \<in> get_tags
        (apply_mute ''me@example.org''
           (Msg ''R'' ''list@example.org'' [] [Msg ''A'' ''me@example.org'' [] []]) False None
           (no_tags(''A'' := {MUTE_CMD_TAG})))
        (Msg ''A'' ''me@example.org'' [] [])"
proof -
  let ?A = "Msg ''A'' ''me@example.org'' [] []"
  let ?root = "Msg ''R'' ''list@example.org'' [] [?A]"
  let ?db = "no_tags(''A'' := {MUTE_CMD_TAG})"
  have mem: "?A \<in> set (thread_msgs ?root)"
    by simp
  have cmd: "MUTE_CMD_TAG \<in> get_tags ?db ?A"
    by (simp add: get_tags_def)
  show ?thesis
    using mem cmd apply_mute_command_tag [OF mem cmd, of "''me@example.org''" False None]
    by blast
qed

text \<open>
  C3, as stated, fails: the test is on the characters of the header, so a header that
  names the target address in another letter case gives \<open>NONE\<close> where the same address in
  the target's own case gives \<open>TO\<close>.
\<close>

theorem from_msg_case_sensitive:
  "from_msg ''me@example.org'' (Msg ''m1'' ''me@example.org'' [] []) = TO
   \<and> from_msg ''me@example.org'' (Msg ''m1'' ''Me@Example.org'' [] []) = NONE"
  by (simp add: from_msg_def)

text \<open>
  C3, amended. The level is \<open>TO\<close> if the target occurs as a contiguous, case-sensitive
  substring of the raw \<^verbatim>\<open>To\<close> header text, else \<open>CC\<close> if it so occurs in the raw \<^verbatim>\<open>Cc\<close> text,
  else \<open>NONE\<close>. For a target that contains neither a comma nor a space, the level does
  not depend on the order in which the headers list their addresses.
\<close>

theorem from_msg_raw_substring:
  "from_msg EMAIL m =
     (if sublist EMAIL (hdr_to m) then TO
      else if sublist EMAIL (hdr_cc m) then CC
      else NONE)
   \<and> (CHR '','' \<notin> set EMAIL \<and> CHR '' '' \<notin> set EMAIL
        \<and> set tos = set tos' \<and> set ccs = set ccs' \<longrightarrow>
      from_msg EMAIL (Msg i (address_list tos) (address_list ccs) rs)
        = from_msg EMAIL (Msg i (address_list tos') (address_list ccs') rs))"
  by (simp add: from_msg_sublist sublist_address_list)

theorem from_msg_raw_substring_witness:
  "CHR '','' \<notin> set ''me@example.org'' \<and> CHR '' '' \<notin> set ''me@example.org''
   \<and> set [''a@example.org'', ''me@example.org''] = set [''me@example.org'', ''a@example.org'']
   \<and> from_msg ''me@example.org''
        (Msg ''m1'' (address_list [''a@example.org'', ''me@example.org'']) (address_list []) [])
      = from_msg ''me@example.org''
        (Msg ''m1'' (address_list [''me@example.org'', ''a@example.org'']) (address_list []) [])
   \<and> from_msg ''me@example.org''
        (Msg ''m1'' (address_list [''a@example.org'', ''me@example.org'']) (address_list []) []) = TO"
proof -
  have h: "CHR '','' \<notin> set ''me@example.org'' \<and> CHR '' '' \<notin> set ''me@example.org''
      \<and> set [''a@example.org'', ''me@example.org''] = set [''me@example.org'', ''a@example.org'']
      \<and> set ([] :: string list) = set []"
    by auto
  have t: "from_msg ''me@example.org''
        (Msg ''m1'' (address_list [''a@example.org'', ''me@example.org'']) (address_list []) []) = TO"
    by (simp add: from_msg_def)
  show ?thesis
    using h t from_msg_raw_substring [of "''me@example.org''" _
        "[''a@example.org'', ''me@example.org'']" "[''me@example.org'', ''a@example.org'']"
        "[]" "[]" "''m1''" "[]"]
    by blast
qed

text \<open>
  C4, as stated, fails. Take the target \<^verbatim>\<open>me@example.org\<close>, a root \<open>R\<close> with the command tag
  that does not name the target, its reply \<open>A\<close> and \<open>A\<close>'s reply \<open>B\<close>, both naming the target
  in \<^verbatim>\<open>Cc\<close> only. The levels are \<open>NONE\<close>, \<open>CC\<close>, \<open>CC\<close>, and the run from \<open>R\<close> leaves both \<open>A\<close>
  and \<open>B\<close> without the muted tag: \<open>A\<close> is compared with its parent \<open>R\<close>, and \<open>CC \<le> NONE\<close> is
  false.
\<close>

theorem cc_reply_to_unaddressed_root_not_muted:
  "from_msg ''me@example.org''
     (Msg ''R'' ''list@example.org'' []
        [Msg ''A'' ''list@example.org'' ''me@example.org''
           [Msg ''B'' ''list@example.org'' ''me@example.org'' []]]) = NONE
   \<and> from_msg ''me@example.org''
     (Msg ''A'' ''list@example.org'' ''me@example.org''
        [Msg ''B'' ''list@example.org'' ''me@example.org'' []]) = CC
   \<and> from_msg ''me@example.org'' (Msg ''B'' ''list@example.org'' ''me@example.org'' []) = CC
   \<and> MUTED_TAG \<notin>
     apply_mute ''me@example.org''
       (Msg ''R'' ''list@example.org'' []
          [Msg ''A'' ''list@example.org'' ''me@example.org''
             [Msg ''B'' ''list@example.org'' ''me@example.org'' []]])
       False None (no_tags(''R'' := {MUTE_CMD_TAG})) ''A''
   \<and> MUTED_TAG \<notin>
     apply_mute ''me@example.org''
       (Msg ''R'' ''list@example.org'' []
          [Msg ''A'' ''list@example.org'' ''me@example.org''
             [Msg ''B'' ''list@example.org'' ''me@example.org'' []]])
       False None (no_tags(''R'' := {MUTE_CMD_TAG})) ''B''"
  by (simp add: Let_def from_msg_def mute_decision_def get_tags_def add_tag_def no_tags_def
      less_eq_Addressed_def MUTE_CMD_TAG_def MUTED_TAG_def PROCESSED_TAG_def)

text \<open>
  C4, amended. In the tree of root \<open>R\<close> (command tag, level \<open>NONE\<close>), its reply \<open>A\<close> (no
  command tag, level \<open>CC\<close>) and \<open>A\<close>'s reply \<open>B\<close> (no command tag, level \<open>CC\<close>), a run from \<open>R\<close>
  with \<open>parent_muted = False\<close> and \<open>parent_addressed = None\<close> adds the muted tag and the
  processed marker to \<open>R\<close>, and only the processed marker to \<open>A\<close> and to \<open>B\<close>: being newly
  named in \<^verbatim>\<open>Cc\<close> stops the propagation at \<open>A\<close>, and \<open>B\<close> then has an unmuted parent.
\<close>

theorem scenario_none_cc_cc:
  assumes "B = Msg b tob ccb []" and "A = Msg a toa cca [B]" and "R = Msg r tor ccr [A]"
    and "distinct [r, a, b]"
    and "from_msg EMAIL R = NONE" and "from_msg EMAIL A = CC" and "from_msg EMAIL B = CC"
    and "MUTE_CMD_TAG \<in> get_tags db R"
    and "MUTE_CMD_TAG \<notin> get_tags db A" and "MUTE_CMD_TAG \<notin> get_tags db B"
  shows "get_tags (apply_mute EMAIL R False None db) R = get_tags db R \<union> {MUTED_TAG, PROCESSED_TAG}
       \<and> get_tags (apply_mute EMAIL R False None db) A = get_tags db A \<union> {PROCESSED_TAG}
       \<and> get_tags (apply_mute EMAIL R False None db) B = get_tags db B \<union> {PROCESSED_TAG}"
proof -
  have le: "\<not> CC \<le> NONE"
    by (simp add: less_eq_Addressed_def)
  show ?thesis
    using assms(4-) le unfolding assms(1-3)
    by (auto simp: Let_def mute_decision_def get_tags_def add_tag_def)
qed

theorem scenario_none_cc_cc_witness:
  "distinct [''R'', ''A'', ''B'']
   \<and> from_msg ''me@example.org''
        (Msg ''R'' ''list@example.org'' []
          [Msg ''A'' ''list@example.org'' ''me@example.org''
             [Msg ''B'' ''list@example.org'' ''me@example.org'' []]]) = NONE
   \<and> from_msg ''me@example.org''
        (Msg ''A'' ''list@example.org'' ''me@example.org''
             [Msg ''B'' ''list@example.org'' ''me@example.org'' []]) = CC
   \<and> from_msg ''me@example.org'' (Msg ''B'' ''list@example.org'' ''me@example.org'' []) = CC
   \<and> apply_mute ''me@example.org''
       (Msg ''R'' ''list@example.org'' []
          [Msg ''A'' ''list@example.org'' ''me@example.org''
             [Msg ''B'' ''list@example.org'' ''me@example.org'' []]])
       False None (no_tags(''R'' := {MUTE_CMD_TAG})) ''R'' = {MUTE_CMD_TAG, MUTED_TAG, PROCESSED_TAG}
   \<and> apply_mute ''me@example.org''
       (Msg ''R'' ''list@example.org'' []
          [Msg ''A'' ''list@example.org'' ''me@example.org''
             [Msg ''B'' ''list@example.org'' ''me@example.org'' []]])
       False None (no_tags(''R'' := {MUTE_CMD_TAG})) ''A'' = {PROCESSED_TAG}
   \<and> apply_mute ''me@example.org''
       (Msg ''R'' ''list@example.org'' []
          [Msg ''A'' ''list@example.org'' ''me@example.org''
             [Msg ''B'' ''list@example.org'' ''me@example.org'' []]])
       False None (no_tags(''R'' := {MUTE_CMD_TAG})) ''B'' = {PROCESSED_TAG}"
proof -
  let ?B = "Msg ''B'' ''list@example.org'' ''me@example.org'' []"
  let ?A = "Msg ''A'' ''list@example.org'' ''me@example.org'' [?B]"
  let ?R = "Msg ''R'' ''list@example.org'' [] [?A]"
  let ?db = "no_tags(''R'' := {MUTE_CMD_TAG})"
  have d: "distinct [''R'', ''A'', ''B'']"
    by simp
  have lv: "from_msg ''me@example.org'' ?R = NONE" "from_msg ''me@example.org'' ?A = CC"
    "from_msg ''me@example.org'' ?B = CC"
    by (simp_all add: from_msg_def)
  have cmd: "MUTE_CMD_TAG \<in> get_tags ?db ?R" "MUTE_CMD_TAG \<notin> get_tags ?db ?A"
    "MUTE_CMD_TAG \<notin> get_tags ?db ?B"
    by (simp_all add: get_tags_def no_tags_def)
  have "get_tags (apply_mute ''me@example.org'' ?R False None ?db) ?R
          = get_tags ?db ?R \<union> {MUTED_TAG, PROCESSED_TAG}
       \<and> get_tags (apply_mute ''me@example.org'' ?R False None ?db) ?A
          = get_tags ?db ?A \<union> {PROCESSED_TAG}
       \<and> get_tags (apply_mute ''me@example.org'' ?R False None ?db) ?B
          = get_tags ?db ?B \<union> {PROCESSED_TAG}"
    by (rule scenario_none_cc_cc [OF refl refl refl d lv cmd])
  then show ?thesis
    using d lv by (auto simp: get_tags_def no_tags_def simp del: apply_mute.simps)
qed

text \<open>
  C5. A second run from the same root with the same initial context, on the database
  the first run left, changes nothing: the database, and so the set of messages that
  carry the muted tag, is the same after two runs as after one.
\<close>

theorem apply_mute_idempotent:
  "apply_mute EMAIL root False None (apply_mute EMAIL root False None db)
     = apply_mute EMAIL root False None db"
  by (rule apply_mute_twice)

theorem apply_mute_idempotent_witness:
  "apply_mute ''me@example.org''
     (Msg ''R'' ''list@example.org'' [] [Msg ''A'' ''list@example.org'' [] []]) False None
     (apply_mute ''me@example.org''
        (Msg ''R'' ''list@example.org'' [] [Msg ''A'' ''list@example.org'' [] []]) False None
        (no_tags(''R'' := {MUTE_CMD_TAG}))) ''A''
   = {MUTED_TAG, PROCESSED_TAG}"
proof -
  have "apply_mute ''me@example.org''
     (Msg ''R'' ''list@example.org'' [] [Msg ''A'' ''list@example.org'' [] []]) False None
     (no_tags(''R'' := {MUTE_CMD_TAG})) ''A'' = {MUTED_TAG, PROCESSED_TAG}"
    by (auto simp: Let_def from_msg_def mute_decision_def get_tags_def add_tag_def no_tags_def
        less_eq_Addressed_def MUTE_CMD_TAG_def MUTED_TAG_def PROCESSED_TAG_def)
  then show ?thesis
    by (simp only: apply_mute_idempotent)
qed

text \<open>
  C6. Over any sequence of runs of the main loop, a tag that a message carries at some
  point is still on it afterwards; in particular the muted tag and the processed marker
  are never removed.
\<close>

theorem propagate_runs_monotone:
  "t \<in> db i \<Longrightarrow> t \<in> propagate_runs runs db i"
proof (induction runs arbitrary: db)
  case Nil
  then show ?case by (simp add: propagate_runs_def)
next
  case (Cons run runs)
  obtain EMAIL root where run: "run = (EMAIL, root)"
    by (cases run)
  have "t \<in> apply_mute EMAIL root False None db i"
    using Cons.prems by (rule apply_mute_mono)
  then have "t \<in> propagate_runs runs (apply_mute EMAIL root False None db) i"
    by (rule Cons.IH)
  then show ?case
    by (simp add: propagate_runs_def run)
qed

theorem propagate_runs_monotone_witness:
  "MUTED_TAG \<in> (no_tags(''A'' := {MUTED_TAG, PROCESSED_TAG})) ''A''
   \<and> MUTED_TAG \<in> propagate_runs
        [(''me@example.org'', Msg ''R'' ''list@example.org'' [] [Msg ''A'' ''me@example.org'' [] []]),
         (''me@example.org'', Msg ''A'' ''me@example.org'' [] [])]
        (no_tags(''A'' := {MUTED_TAG, PROCESSED_TAG})) ''A''"
proof -
  have h: "MUTED_TAG \<in> (no_tags(''A'' := {MUTED_TAG, PROCESSED_TAG})) ''A''"
    by simp
  show ?thesis
    using h propagate_runs_monotone [of MUTED_TAG "no_tags(''A'' := {MUTED_TAG, PROCESSED_TAG})" "''A''"]
    by blast
qed

text \<open>
  C7. A call on a thread root (\<open>parent_addressed = None\<close>) sets \<^verbatim>\<open>mute\<close> to whether the root
  carries the command tag, whatever \<open>parent_muted\<close> is. So a root whose id is not reused
  by one of its descendants, and which does not carry the muted tag yet, carries it
  after the run exactly when it carries the command tag.
\<close>

theorem root_not_muted_by_inheritance:
  assumes "msg_id root \<notin> msg_id ` set (concat (map thread_msgs (get_replies root)))"
    and "MUTED_TAG \<notin> get_tags db root"
  shows "(\<exists>cs. calls EMAIL db root pm None
               = Call root pm None (MUTE_CMD_TAG \<in> get_tags db root) # cs)
       \<and> (MUTED_TAG \<in> get_tags (apply_mute EMAIL root pm None db) root)
           = (MUTE_CMD_TAG \<in> get_tags db root)"
proof -
  obtain cs where cs: "calls EMAIL db root pm None =
          Call root pm None (mute_decision (get_tags db root) (from_msg EMAIL root) pm None) # cs"
    and ms: "map call_msg cs = concat (map thread_msgs (get_replies root))"
    using calls_Cons [of EMAIL db root pm None] by blast
  have dec: "mute_decision (get_tags db root) (from_msg EMAIL root) pm None
               = (MUTE_CMD_TAG \<in> get_tags db root)"
    by (simp add: mute_decision_def)
  have "msg_id (call_msg c) \<noteq> msg_id root" if "c \<in> set cs" for c
  proof -
    have "call_msg c \<in> set (map call_msg cs)"
      using that by simp
    then have "call_msg c \<in> set (concat (map thread_msgs (get_replies root)))"
      by (simp only: ms)
    then have "msg_id (call_msg c) \<in> msg_id ` set (concat (map thread_msgs (get_replies root)))"
      by (rule imageI)
    with assms(1) show ?thesis
      by metis
  qed
  then have "(\<exists>c \<in> set (calls EMAIL db root pm None).
                msg_id (call_msg c) = msg_id root \<and> call_mute c)
             = (MUTE_CMD_TAG \<in> get_tags db root)"
    using cs dec by auto
  then have "(MUTED_TAG \<in> apply_mute EMAIL root pm None db (msg_id root))
              = (MUTE_CMD_TAG \<in> get_tags db root)"
    using assms(2) tags_distinct(3) by (simp add: apply_mute_apply get_tags_def)
  then show ?thesis
    using cs dec by (simp add: get_tags_def)
qed

theorem root_not_muted_by_inheritance_witness:
  "msg_id (Msg ''R'' ''me@example.org'' [] [Msg ''A'' ''me@example.org'' [] []])
     \<notin> msg_id ` set (concat (map thread_msgs
          (get_replies (Msg ''R'' ''me@example.org'' [] [Msg ''A'' ''me@example.org'' [] []]))))
   \<and> MUTED_TAG \<notin> get_tags no_tags (Msg ''R'' ''me@example.org'' [] [Msg ''A'' ''me@example.org'' [] []])
   \<and> MUTE_CMD_TAG \<notin> get_tags no_tags (Msg ''R'' ''me@example.org'' [] [Msg ''A'' ''me@example.org'' [] []])
   \<and> MUTED_TAG \<notin> get_tags
        (apply_mute ''me@example.org''
           (Msg ''R'' ''me@example.org'' [] [Msg ''A'' ''me@example.org'' [] []]) False None no_tags)
        (Msg ''R'' ''me@example.org'' [] [Msg ''A'' ''me@example.org'' [] []])"
proof -
  let ?R = "Msg ''R'' ''me@example.org'' [] [Msg ''A'' ''me@example.org'' [] []]"
  have d: "msg_id ?R \<notin> msg_id ` set (concat (map thread_msgs (get_replies ?R)))"
    by simp
  have n: "MUTED_TAG \<notin> get_tags no_tags ?R" "MUTE_CMD_TAG \<notin> get_tags no_tags ?R"
    by (simp_all add: get_tags_def no_tags_def)
  show ?thesis
    using d n root_not_muted_by_inheritance [OF d n(1), of "''me@example.org''" False]
    by blast
qed

text \<open>
  C8. With the empty string as the target address, every message is classified \<open>TO\<close>: the
  empty string occurs in every header text.
\<close>

theorem from_msg_empty_email: "from_msg [] m = TO"
  by (simp add: from_msg_def)

theorem from_msg_empty_email_witness:
  "from_msg [] (Msg ''m1'' ''list@example.org'' ''someone@example.org'' []) = TO"
  by (rule from_msg_empty_email)

text \<open>
  C9, as stated, fails. The recursion is on the interpreter's call stack, one frame per
  level of nesting. With the default limit of 1000 frames there is room for at most 1000
  nested invocations, and on a chain of 1101 messages, each the reply to the one before,
  the run ends with \<^verbatim>\<open>RecursionError\<close> instead of visiting every message.
\<close>

theorem deep_thread_raises_RecursionError:
  "apply_mute_run 1000 ''me@example.org'' (reply_chain 1100) False None
     (no_tags(''m'' := {MUTE_CMD_TAG}), []) = Inl RecursionError"
proof -
  have "1000 < depth_of (reply_chain 1100)"
    by (simp add: depth_of_reply_chain)
  then show ?thesis
    by (rule apply_mute_run_overflow)
qed

text \<open>
  C9, amended. On every finite thread the run terminates. If the nesting depth of the
  thread is within what the call stack has room for, the run returns; it is the
  structural recursion \<open>apply_mute\<close>, and its journal shows exactly one visit to each
  message of the thread, parents before their replies. If the thread is nested deeper,
  the run ends with \<^verbatim>\<open>RecursionError\<close>.
\<close>

theorem apply_mute_run_visits_each_once:
  "(depth_of root \<le> room \<longrightarrow>
      (\<exists>journal. apply_mute_run room EMAIL root pm pa (db, log0)
                   = Inr (apply_mute EMAIL root pm pa db, log0 @ journal)
                 \<and> visited journal = map msg_id (thread_msgs root)))
   \<and> (room < depth_of root \<longrightarrow>
        apply_mute_run room EMAIL root pm pa (db, log0) = Inl RecursionError)"
proof -
  have "visited (concat (map writes_of (calls EMAIL db root pm pa))) = map msg_id (thread_msgs root)"
    using calls_msgs [of EMAIL db root pm pa, symmetric] by (simp add: visited_writes)
  then have "\<exists>journal. apply_mute_run room EMAIL root pm pa (db, log0)
                   = Inr (apply_mute EMAIL root pm pa db, log0 @ journal)
                 \<and> visited journal = map msg_id (thread_msgs root)"
    if "depth_of root \<le> room"
    using apply_mute_run_calls [OF that, of EMAIL pm pa "(db, log0)"]
    by (simp add: apply_mute_calls)
  then show ?thesis
    using apply_mute_run_overflow by blast
qed

theorem apply_mute_run_visits_each_once_witness:
  "depth_of (Msg ''R'' ''list@example.org'' []
         [Msg ''A'' ''list@example.org'' [] [], Msg ''B'' ''me@example.org'' [] []]) \<le> 2
   \<and> (\<exists>journal. apply_mute_run 2 ''me@example.org''
          (Msg ''R'' ''list@example.org'' []
             [Msg ''A'' ''list@example.org'' [] [], Msg ''B'' ''me@example.org'' [] []])
          False None (no_tags(''R'' := {MUTE_CMD_TAG}), [])
        = Inr (apply_mute ''me@example.org''
                 (Msg ''R'' ''list@example.org'' []
                    [Msg ''A'' ''list@example.org'' [] [], Msg ''B'' ''me@example.org'' [] []])
                 False None (no_tags(''R'' := {MUTE_CMD_TAG})), [] @ journal)
        \<and> visited journal = [''R'', ''A'', ''B''])
   \<and> 1 < depth_of (Msg ''R'' ''list@example.org'' []
         [Msg ''A'' ''list@example.org'' [] [], Msg ''B'' ''me@example.org'' [] []])
   \<and> apply_mute_run 1 ''me@example.org''
        (Msg ''R'' ''list@example.org'' []
           [Msg ''A'' ''list@example.org'' [] [], Msg ''B'' ''me@example.org'' [] []])
        False None (no_tags(''R'' := {MUTE_CMD_TAG}), []) = Inl RecursionError"
proof -
  let ?R = "Msg ''R'' ''list@example.org'' []
         [Msg ''A'' ''list@example.org'' [] [], Msg ''B'' ''me@example.org'' [] []]"
  have d: "depth_of ?R = 2"
    by simp
  have t: "map msg_id (thread_msgs ?R) = [''R'', ''A'', ''B'']"
    by simp
  show ?thesis
    using apply_mute_run_visits_each_once [of ?R 2 "''me@example.org''" False None
        "no_tags(''R'' := {MUTE_CMD_TAG})" "[]"]
      apply_mute_run_visits_each_once [of ?R 1 "''me@example.org''" False None
        "no_tags(''R'' := {MUTE_CMD_TAG})" "[]"]
    unfolding d t by simp
qed

text \<open>
  C10. A run only adds tags, and adds none but the muted tag and the processed marker;
  every message of the thread gets the processed marker; a message outside the thread
  keeps its tag set; and no message gains or loses the command tag.
\<close>

theorem apply_mute_frame:
  "db i \<subseteq> apply_mute EMAIL root pm pa db i
   \<and> apply_mute EMAIL root pm pa db i \<subseteq> db i \<union> {MUTED_TAG, PROCESSED_TAG}
   \<and> (i \<in> msg_id ` set (thread_msgs root) \<longrightarrow> PROCESSED_TAG \<in> apply_mute EMAIL root pm pa db i)
   \<and> (i \<notin> msg_id ` set (thread_msgs root) \<longrightarrow> apply_mute EMAIL root pm pa db i = db i)
   \<and> (MUTE_CMD_TAG \<in> apply_mute EMAIL root pm pa db i) = (MUTE_CMD_TAG \<in> db i)"
proof -
  have "msg_id (call_msg c) \<in> msg_id ` set (thread_msgs root)"
    if "c \<in> set (calls EMAIL db root pm pa)" for c
  proof -
    have "call_msg c \<in> set (map call_msg (calls EMAIL db root pm pa))"
      using that by simp
    then show ?thesis
      by (simp add: calls_msgs)
  qed
  then have "i \<notin> msg_id ` set (thread_msgs root) \<Longrightarrow> apply_mute EMAIL root pm pa db i = db i"
    by (auto simp: apply_mute_apply)
  moreover have "db i \<subseteq> apply_mute EMAIL root pm pa db i"
    "apply_mute EMAIL root pm pa db i \<subseteq> db i \<union> {MUTED_TAG, PROCESSED_TAG}"
    "i \<in> msg_id ` set (thread_msgs root) \<Longrightarrow> PROCESSED_TAG \<in> apply_mute EMAIL root pm pa db i"
    by (auto simp: apply_mute_apply)
  ultimately show ?thesis
    using apply_mute_cmd [of EMAIL root pm pa db i] by blast
qed

theorem apply_mute_frame_witness:
  "''A'' \<in> msg_id ` set (thread_msgs (Msg ''R'' ''list@example.org'' [] [Msg ''A'' ''me@example.org'' [] []]))
   \<and> PROCESSED_TAG \<in> apply_mute ''me@example.org''
        (Msg ''R'' ''list@example.org'' [] [Msg ''A'' ''me@example.org'' [] []]) False None
        (no_tags(''Z'' := {''inbox''})) ''A''
   \<and> ''Z'' \<notin> msg_id ` set (thread_msgs (Msg ''R'' ''list@example.org'' [] [Msg ''A'' ''me@example.org'' [] []]))
   \<and> apply_mute ''me@example.org''
        (Msg ''R'' ''list@example.org'' [] [Msg ''A'' ''me@example.org'' [] []]) False None
        (no_tags(''Z'' := {''inbox''})) ''Z'' = {''inbox''}"
proof -
  let ?R = "Msg ''R'' ''list@example.org'' [] [Msg ''A'' ''me@example.org'' [] []]"
  let ?db = "no_tags(''Z'' := {''inbox''})"
  have a: "''A'' \<in> msg_id ` set (thread_msgs ?R)"
    by simp
  have z: "''Z'' \<notin> msg_id ` set (thread_msgs ?R)"
    by simp
  have "?db ''Z'' = {''inbox''}"
    by simp
  then show ?thesis
    using a z apply_mute_frame [of ?db "''A''" "''me@example.org''" ?R False None]
      apply_mute_frame [of ?db "''Z''" "''me@example.org''" ?R False None]
    by simp
qed

end
